theory Spec2Isabelle
  imports Main "HOL-Library.List_Lexorder"
begin

section \<open>N-Queens solvers: the model\<close>

text \<open>
  The source (\<^verbatim>\<open>n_queens.py\<close>) represents a placement as a sequence
  \<open>(c0, ..., c(n-1))\<close>: the index is the column of a queen and the value its row.
  Rows are Python integers (\<^typ>\<open>int\<close>, since \<^verbatim>\<open>move - diagonal_shift\<close> may be
  negative); the board size is a natural number (\<^verbatim>\<open>range(board_size)\<close>, and the
  script only accepts \<^verbatim>\<open>int(user_input) > 0\<close>); tuples and lists are lists; Python
  sets are HOL sets.

  An exception raised by the source is a value \<open>Inl e\<close> of the result:
  \<^verbatim>\<open>AssertionError\<close> for a failed \<^verbatim>\<open>assert\<close>, \<^verbatim>\<open>TypeError\<close> for a call with the
  wrong number of arguments.
\<close>

subsection \<open>Errors and the iteration order of a set\<close>

datatype error = AssertionError | TypeError

text \<open>
  A loop \<^verbatim>\<open>for x in s\<close> over a Python set visits every element of \<open>s\<close> exactly once;
  the language does not say in which order. The order is therefore a parameter of every
  function that runs such a loop: a \<open>set_order\<close> turns a finite set into a list of its
  elements without repetition, \<open>iterate order s\<close> is the sequence in which the loop sees
  them. \<open>ascending\<close> and \<open>descending\<close> are two such orders.
\<close>

typedef 'a set_order =
  "{f :: 'a set \<Rightarrow> 'a list. \<forall>S. finite S \<longrightarrow> set (f S) = S \<and> distinct (f S)}"
proof
  show "(\<lambda>S. SOME xs. set xs = S \<and> distinct xs)
      \<in> {f :: 'a set \<Rightarrow> 'a list. \<forall>S. finite S \<longrightarrow> set (f S) = S \<and> distinct (f S)}"
  proof (rule CollectI, rule allI, rule impI)
    fix S :: "'a set"
    assume "finite S"
    then have "\<exists>xs. set xs = S \<and> distinct xs"
      by (rule finite_distinct_list)
    then show "set (SOME xs. set xs = S \<and> distinct xs) = S \<and> distinct (SOME xs. set xs = S \<and> distinct xs)"
      by (rule someI_ex)
  qed
qed

setup_lifting type_definition_set_order

lift_definition iterate :: "'a set_order \<Rightarrow> 'a set \<Rightarrow> 'a list" is "\<lambda>f. f" .

lift_definition ascending :: "('a::linorder) set_order" is "sorted_list_of_set"
  by simp

lift_definition descending :: "('a::linorder) set_order" is "\<lambda>S. rev (sorted_list_of_set S)"
  by simp

subsection \<open>The oracle: get_valid_moves\<close>

text \<open>
  \<^verbatim>\<open>valid_moves = set(range(board_size))\<close>; the loop over
  \<^verbatim>\<open>enumerate(prev_moves)\<close> adds, for each earlier move, the move itself and the two cells
  \<^verbatim>\<open>move + diagonal_shift\<close>, \<^verbatim>\<open>move - diagonal_shift\<close> to \<^verbatim>\<open>invalid_moves\<close>;
  \<^verbatim>\<open>difference_update\<close> removes them.
\<close>

definition get_valid_moves :: "int list \<Rightarrow> nat \<Rightarrow> int set" where
  "get_valid_moves prev_moves board_size =
     (let valid_moves = set (map int [0..<board_size]);
          invalid_moves = fold (\<lambda>(idx, move) invalid_moves.
              let diagonal_shift = int (length prev_moves) - int idx
              in insert (move - diagonal_shift)
                   (insert (move + diagonal_shift) (insert move invalid_moves)))
            (enumerate 0 prev_moves) {}
      in valid_moves - invalid_moves)"

subsection \<open>The loops of the two backtracking solvers\<close>

text \<open>
  \<open>collect_loop\<close> is the loop at the end of \<^verbatim>\<open>recursive\<close>: every move is tried, the
  non-empty solutions of each recursive call are added to \<^verbatim>\<open>output\<close>, and an
  exception of a call ends the loop. \<open>first_loop\<close> is the loop at the end of
  \<^verbatim>\<open>recursive_fast\<close>: it returns the first result that is not \<^verbatim>\<open>None\<close>, and
  \<^verbatim>\<open>None\<close> when the moves are used up.
\<close>

fun collect_loop :: "('a \<Rightarrow> error + 'b list set) \<Rightarrow> 'a list \<Rightarrow> 'b list set \<Rightarrow> error + 'b list set" where
  "collect_loop call [] output = Inr output"
| "collect_loop call (move # rest) output =
     (case call move of
        Inl e \<Rightarrow> Inl e
      | Inr solutions \<Rightarrow>
          collect_loop call rest (output \<union> Set.filter (\<lambda>solution. length solution > 0) solutions))"

fun first_loop :: "('a \<Rightarrow> error + 'b option) \<Rightarrow> 'a list \<Rightarrow> error + 'b option" where
  "first_loop call [] = Inr None"
| "first_loop call (move # rest) =
     (case call move of
        Inl e \<Rightarrow> Inl e
      | Inr None \<Rightarrow> first_loop call rest
      | Inr (Some solution) \<Rightarrow> Inr (Some solution))"

text \<open>
  Facts about the oracle and the loops that the termination proofs of the solvers need:
  a valid move is a row of the board that no earlier queen occupies, so every recursive
  call leaves fewer free rows.
\<close>

lemma collect_loop_cong [fundef_cong]:
  "moves = moves' \<Longrightarrow> output = output' \<Longrightarrow> (\<And>move. move \<in> set moves' \<Longrightarrow> call move = call' move)
    \<Longrightarrow> collect_loop call moves output = collect_loop call' moves' output'"
  by (induction moves' arbitrary: moves "output" output') (auto split: sum.splits)

lemma first_loop_cong [fundef_cong]:
  "moves = moves' \<Longrightarrow> (\<And>move. move \<in> set moves' \<Longrightarrow> call move = call' move)
    \<Longrightarrow> first_loop call moves = first_loop call' moves'"
  by (induction moves' arbitrary: moves) (auto split: sum.splits option.splits)

lemma fold_invalid:
  "fold (\<lambda>(idx, move) invalid_moves.
          insert (move - (k - int idx))
            (insert (move + (k - int idx)) (insert move invalid_moves)))
        (enumerate i xs) A
   = A \<union> (\<Union>j<length xs. {xs ! j, xs ! j + (k - int (i + j)), xs ! j - (k - int (i + j))})"
proof (induction xs arbitrary: i A)
  case Nil
  then show ?case by simp
next
  case (Cons x xs)
  have split: "{..<Suc (length xs)} = insert 0 (Suc ` {..<length xs})"
    by (auto simp: lessThan_Suc_eq_insert_0)
  show ?case
    unfolding enumerate_simps fold_Cons o_apply prod.case Cons.IH length_Cons split
    by auto
qed

lemma get_valid_moves_iff:
  "move \<in> get_valid_moves prev_moves board_size \<longleftrightarrow>
     move \<in> int ` {0..<board_size} \<and>
     (\<forall>idx<length prev_moves.
        move \<noteq> prev_moves ! idx \<and>
        move \<noteq> prev_moves ! idx + (int (length prev_moves) - int idx) \<and>
        move \<noteq> prev_moves ! idx - (int (length prev_moves) - int idx))"
  unfolding get_valid_moves_def Let_def fold_invalid by auto

lemma finite_get_valid_moves: "finite (get_valid_moves prev_moves board_size)"
  by (simp add: get_valid_moves_def Let_def)

lemma get_valid_moves_fresh:
  "move \<in> get_valid_moves prev_moves board_size \<Longrightarrow>
     move \<in> int ` {0..<board_size} \<and> move \<notin> set prev_moves"
  by (auto simp: get_valid_moves_iff in_set_conv_nth)

lemma set_iterate: "finite S \<Longrightarrow> set (iterate order S) = S"
  by transfer simp

lemma distinct_iterate: "finite S \<Longrightarrow> distinct (iterate order S)"
  by transfer simp

lemma recursive_measure:
  assumes "move \<in> set (iterate order (get_valid_moves prev_moves board_size))"
  shows "card (int ` {0..<board_size} - insert move (set prev_moves))
       < card (int ` {0..<board_size} - set prev_moves)"
proof -
  from assms have "move \<in> get_valid_moves prev_moves board_size"
    by (simp add: set_iterate finite_get_valid_moves)
  then have m: "move \<in> int ` {0..<board_size} - set prev_moves"
    using get_valid_moves_fresh by blast
  have fin: "finite (int ` {0..<board_size} - set prev_moves)"
    by simp
  have "int ` {0..<board_size} - insert move (set prev_moves)
      = (int ` {0..<board_size} - set prev_moves) - {move}"
    by auto
  then show ?thesis
    using card_Diff1_less [OF fin m] by simp
qed

subsection \<open>recursive and recursive_fast\<close>

text \<open>
  \<^verbatim>\<open>len(valid_moves)\<close> is the cardinality of the set;
  \<^verbatim>\<open>curr_state.extend(valid_moves)\<close> appends the elements of the set in iteration order.
  The test \<^verbatim>\<open>len(curr_state) == board_size - 1\<close> is on Python integers, so for
  \<open>board_size = 0\<close> the right-hand side is \<open>-1\<close>.
\<close>

function recursive :: "int set_order \<Rightarrow> int list \<Rightarrow> nat \<Rightarrow> error + int list set" where
  "recursive order prev_moves board_size =
     (let curr_state = prev_moves;
          valid_moves = get_valid_moves curr_state board_size
      in if card valid_moves = 0 then Inr {}
         else if int (length curr_state) = int board_size - 1 then
           (if card valid_moves = 1 then Inr {curr_state @ iterate order valid_moves}
            else Inl AssertionError)
         else collect_loop (\<lambda>move. recursive order (curr_state @ [move]) board_size)
                (iterate order valid_moves) {})"
  by pat_completeness auto
termination
  by (relation "measure (\<lambda>(order, prev_moves, board_size).
        card (int ` {0..<board_size} - set prev_moves))")
     (simp_all add: recursive_measure)

function recursive_fast :: "int set_order \<Rightarrow> int list \<Rightarrow> nat \<Rightarrow> error + int list option" where
  "recursive_fast order prev_moves board_size =
     (let curr_state = prev_moves;
          valid_moves = get_valid_moves curr_state board_size
      in if card valid_moves = 0 then Inr None
         else if int (length curr_state) = int board_size - 1 then
           (if card valid_moves = 1 then Inr (Some (curr_state @ iterate order valid_moves))
            else Inl AssertionError)
         else first_loop (\<lambda>move. recursive_fast order (curr_state @ [move]) board_size)
                (iterate order valid_moves))"
  by pat_completeness auto
termination
  by (relation "measure (\<lambda>(order, prev_moves, board_size).
        card (int ` {0..<board_size} - set prev_moves))")
     (simp_all add: recursive_measure)

declare recursive.simps [simp del]
declare recursive_fast.simps [simp del]

subsection \<open>brute_force\<close>

text \<open>
  \<open>permutations pool r\<close> is \<^verbatim>\<open>itertools.permutations(pool, r)\<close>: the tuples of \<open>r\<close>
  elements taken at distinct positions of the pool, in lexicographic order of the
  positions. \<open>inner_loop\<close> and \<open>outer_loop\<close> are the two nested loops over the index
  pairs of one permutation; they return \<^verbatim>\<open>not_valid\<close> and the counter, and a
  \<^verbatim>\<open>break\<close> is a return.
\<close>

fun permutations :: "'a list \<Rightarrow> nat \<Rightarrow> 'a list list" where
  "permutations pool 0 = [[]]"
| "permutations pool (Suc r) =
     concat (map (\<lambda>i. map ((#) (pool ! i)) (permutations (take i pool @ drop (Suc i) pool) r))
       [0..<length pool])"

fun inner_loop :: "int list \<Rightarrow> nat \<Rightarrow> int \<Rightarrow> nat list \<Rightarrow> nat \<Rightarrow> bool \<times> nat" where
  "inner_loop permut idx_1 elem [] counter = (False, counter)"
| "inner_loop permut idx_1 elem (idx_2 # rest) counter =
     (if \<bar>elem - permut ! idx_2\<bar> = int idx_2 - int idx_1 then (True, counter + 1)
      else inner_loop permut idx_1 elem rest (counter + 1))"

fun outer_loop :: "int list \<Rightarrow> (nat \<times> int) list \<Rightarrow> nat \<Rightarrow> bool \<times> nat" where
  "outer_loop permut [] counter = (False, counter)"
| "outer_loop permut ((idx_1, elem) # rest) counter =
     (case inner_loop permut idx_1 elem [idx_1 + 1..<length permut] counter of
        (not_valid, counter) \<Rightarrow>
          if not_valid then (True, counter) else outer_loop permut rest counter)"

definition brute_force :: "nat \<Rightarrow> int list set \<times> nat" where
  "brute_force n =
     (let permuts = permutations (map int [0..<n]) n
      in fold (\<lambda>permut (solutions, counter).
            case outer_loop permut (enumerate 0 (butlast permut)) counter of
              (not_valid, counter) \<Rightarrow>
                (if not_valid = False then insert permut solutions else solutions, counter))
          permuts ({}, 0))"

subsection \<open>test_get_valid_moves\<close>

text \<open>
  The function prints a report; the model returns it. In the source the branch for a move
  that the oracle rejects calls \<^verbatim>\<open>failed.add(solution, move)\<close>: \<^verbatim>\<open>set.add\<close> takes one
  argument, so this call raises \<^verbatim>\<open>TypeError\<close>, and \<^verbatim>\<open>failed\<close> is never extended.
\<close>

datatype report = Test_passed | FAILED "(int list \<times> int) set"

fun moves_loop :: "nat \<Rightarrow> int list \<Rightarrow> (nat \<times> int) list \<Rightarrow> (int list \<times> int) set
    \<Rightarrow> error + (int list \<times> int) set" where
  "moves_loop board_size solution [] failed = Inr failed"
| "moves_loop board_size solution ((row, move) # rest) failed =
     (let valid_moves = get_valid_moves (take row solution) board_size
      in if move \<notin> valid_moves then Inl TypeError
         else moves_loop board_size solution rest failed)"

fun solutions_loop :: "nat \<Rightarrow> int list list \<Rightarrow> (int list \<times> int) set
    \<Rightarrow> error + (int list \<times> int) set" where
  "solutions_loop board_size [] failed = Inr failed"
| "solutions_loop board_size (solution # rest) failed =
     (case moves_loop board_size solution (enumerate 0 solution) failed of
        Inl e \<Rightarrow> Inl e
      | Inr failed \<Rightarrow> solutions_loop board_size rest failed)"

definition test_get_valid_moves :: "int list set_order \<Rightarrow> nat \<Rightarrow> error + report" where
  "test_get_valid_moves order board_size =
     (let brute_force_solutions = fst (brute_force board_size)
      in case solutions_loop board_size (iterate order brute_force_solutions) {} of
           Inl e \<Rightarrow> Inl e
         | Inr failed \<Rightarrow> Inr (if card failed > 0 then FAILED failed else Test_passed))"

section \<open>Specification\<close>

text \<open>
  A solution of size \<open>n\<close> is a placement of length \<open>n\<close> with rows in \<open>[0, n)\<close>, all
  distinct, and no two queens on a diagonal. \<open>completions n partial\<close> are the solutions
  that start with \<open>partial\<close>.
\<close>

definition diagonal_safe :: "int list \<Rightarrow> bool" where
  "diagonal_safe placement \<longleftrightarrow>
     (\<forall>j<length placement. \<forall>i<j. \<bar>placement ! i - placement ! j\<bar> \<noteq> int j - int i)"

definition valid_partial :: "nat \<Rightarrow> int list \<Rightarrow> bool" where
  "valid_partial n placement \<longleftrightarrow>
     set placement \<subseteq> int ` {0..<n} \<and> distinct placement \<and> diagonal_safe placement"

definition is_solution :: "nat \<Rightarrow> int list \<Rightarrow> bool" where
  "is_solution n placement \<longleftrightarrow> length placement = n \<and> valid_partial n placement"

definition completions :: "nat \<Rightarrow> int list \<Rightarrow> int list set" where
  "completions n partial = {s. is_solution n s \<and> take (length partial) s = partial}"

text \<open>
  The comparison count of the specification: the index pairs \<open>(i, j)\<close>, \<open>i < j\<close>, of a
  permutation in the order \<open>i\<close> ascending and, for one \<open>i\<close>, \<open>j\<close> ascending; the pairs
  examined are those before the first rejecting pair, and that pair.
\<close>

definition diagonal_conflict :: "int list \<Rightarrow> nat \<times> nat \<Rightarrow> bool" where
  "diagonal_conflict permut = (\<lambda>(i, j). \<bar>permut ! i - permut ! j\<bar> = int j - int i)"

definition pairs_from :: "nat \<Rightarrow> nat list \<Rightarrow> (nat \<times> nat) list" where
  "pairs_from len idxs = concat (map (\<lambda>i. map (Pair i) [i + 1..<len]) idxs)"

definition index_pairs :: "nat \<Rightarrow> (nat \<times> nat) list" where
  "index_pairs len = pairs_from len [0..<len]"

definition examined :: "('a \<Rightarrow> bool) \<Rightarrow> 'a list \<Rightarrow> nat" where
  "examined rejecting pairs =
     length (takeWhile (\<lambda>q. \<not> rejecting q) pairs) + (if list_ex rejecting pairs then 1 else 0)"

definition pairs_examined :: "int list \<Rightarrow> nat" where
  "pairs_examined permut = examined (diagonal_conflict permut) (index_pairs (length permut))"

text \<open>
  \<open>agrees result sols\<close>: a result of \<^verbatim>\<open>recursive_fast\<close> is no exception, is
  \<^verbatim>\<open>None\<close> exactly when \<open>sols\<close> is empty, and is otherwise a member of \<open>sols\<close>.
  \<open>reached board_size p\<close>: the solvers, started on the empty placement, may call
  themselves on \<open>p\<close>. A call is made from a reached placement that has a valid move and
  is not one column short of the board, on that placement extended by a valid move
  (\<^verbatim>\<open>recursive\<close> makes all of these calls, \<^verbatim>\<open>recursive_fast\<close> some of them).
\<close>

definition agrees :: "error + int list option \<Rightarrow> int list set \<Rightarrow> bool" where
  "agrees result sols =
     (case result of
        Inl e \<Rightarrow> False
      | Inr None \<Rightarrow> sols = {}
      | Inr (Some s) \<Rightarrow> s \<in> sols)"

inductive reached :: "nat \<Rightarrow> int list \<Rightarrow> bool" for board_size :: nat where
  start: "reached board_size []"
| call: "reached board_size curr_state \<Longrightarrow>
         card (get_valid_moves curr_state board_size) \<noteq> 0 \<Longrightarrow>
         int (length curr_state) \<noteq> int board_size - 1 \<Longrightarrow>
         move \<in> get_valid_moves curr_state board_size \<Longrightarrow>
         reached board_size (curr_state @ [move])"

code_pred reached .

section \<open>Partial placements and the oracle\<close>

lemma diagonal_safe_snoc:
  "diagonal_safe (p @ [m]) \<longleftrightarrow>
     diagonal_safe p \<and> (\<forall>i<length p. \<bar>p ! i - m\<bar> \<noteq> int (length p) - int i)"
proof -
  have "(\<forall>j<Suc (length p). \<forall>i<j. \<bar>(p @ [m]) ! i - (p @ [m]) ! j\<bar> \<noteq> int j - int i)
      \<longleftrightarrow> (\<forall>j<length p. \<forall>i<j. \<bar>(p @ [m]) ! i - (p @ [m]) ! j\<bar> \<noteq> int j - int i)
          \<and> (\<forall>i<length p. \<bar>(p @ [m]) ! i - (p @ [m]) ! length p\<bar> \<noteq> int (length p) - int i)"
    by (auto simp: less_Suc_eq)
  then show ?thesis
    by (simp add: diagonal_safe_def nth_append)
qed

lemma valid_partial_snoc:
  "valid_partial n (p @ [m]) \<longleftrightarrow> valid_partial n p \<and> m \<in> get_valid_moves p n"
proof -
  have a: "m \<notin> set p \<longleftrightarrow> (\<forall>i<length p. m \<noteq> p ! i)"
    by (auto simp: in_set_conv_nth)
  have b: "(\<bar>p ! i - m\<bar> \<noteq> int (length p) - int i) \<longleftrightarrow>
      m \<noteq> p ! i + (int (length p) - int i) \<and> m \<noteq> p ! i - (int (length p) - int i)"
    if "i < length p" for i
    using that by auto
  show ?thesis
    unfolding valid_partial_def diagonal_safe_snoc get_valid_moves_iff
    using a b by auto
qed

lemma valid_partial_Nil: "valid_partial n []"
  by (simp add: valid_partial_def diagonal_safe_def)

lemma valid_partial_take: "valid_partial n s \<Longrightarrow> valid_partial n (take k s)"
proof (induction s arbitrary: k rule: rev_induct)
  case Nil
  then show ?case by simp
next
  case (snoc x xs)
  show ?case
  proof (cases "k \<le> length xs")
    case True
    with snoc show ?thesis by (simp add: valid_partial_snoc)
  next
    case False
    with snoc.prems show ?thesis by simp
  qed
qed

lemma completions_step:
  assumes "length p < n"
  shows "completions n p = (\<Union>m\<in>get_valid_moves p n. completions n (p @ [m]))"
proof (intro set_eqI iffI)
  fix s assume "s \<in> completions n p"
  then have sol: "is_solution n s" and pre: "take (length p) s = p"
    by (simp_all add: completions_def)
  from sol assms have len: "length p < length s"
    by (simp add: is_solution_def)
  then have tk: "take (Suc (length p)) s = p @ [s ! length p]"
    using pre by (simp add: take_Suc_conv_app_nth)
  from sol have "valid_partial n (take (Suc (length p)) s)"
    by (simp add: is_solution_def valid_partial_take)
  with tk have "s ! length p \<in> get_valid_moves p n"
    by (simp add: valid_partial_snoc)
  moreover have "s \<in> completions n (p @ [s ! length p])"
    using sol tk by (simp add: completions_def)
  ultimately show "s \<in> (\<Union>m\<in>get_valid_moves p n. completions n (p @ [m]))"
    by blast
next
  fix s assume "s \<in> (\<Union>m\<in>get_valid_moves p n. completions n (p @ [m]))"
  then obtain m where sol: "is_solution n s" and pre: "take (Suc (length p)) s = p @ [m]"
    by (auto simp: completions_def)
  have "take (length p) s = take (length p) (take (Suc (length p)) s)"
    by simp
  also have "\<dots> = p"
    unfolding pre by simp
  finally show "s \<in> completions n p"
    using sol by (simp add: completions_def)
qed

lemma completions_full:
  assumes "length p = n" "valid_partial n p"
  shows "completions n p = {p}"
  using assms by (auto simp: completions_def is_solution_def)

lemma completions_length: "s \<in> completions n p \<Longrightarrow> length s = n"
  by (simp add: completions_def is_solution_def)

lemma last_column_one_move:
  assumes vp: "valid_partial n p" and len: "Suc (length p) = n"
  shows "card (get_valid_moves p n) \<le> 1"
proof -
  from vp have sub: "set p \<subseteq> int ` {0..<n}" and dist: "distinct p"
    by (simp_all add: valid_partial_def)
  have "card (int ` {0..<n} - set p) = card (int ` {0..<n}) - card (set p)"
    using sub by (simp add: card_Diff_subset)
  also have "\<dots> = n - length p"
    using dist by (simp add: card_image distinct_card)
  finally have one: "card (int ` {0..<n} - set p) = 1"
    using len by simp
  have "get_valid_moves p n \<subseteq> int ` {0..<n} - set p"
    using get_valid_moves_fresh by blast
  then have "card (get_valid_moves p n) \<le> card (int ` {0..<n} - set p)"
    by (intro card_mono) simp_all
  with one show ?thesis by simp
qed

lemma iterate_singleton: "iterate order {m} = [m]"
proof -
  have s: "set (iterate order {m}) = {m}" and d: "distinct (iterate order {m})"
    by (simp_all add: set_iterate distinct_iterate)
  from d have "length (iterate order {m}) = card (set (iterate order {m}))"
    by (simp add: distinct_card)
  with s have "length (iterate order {m}) = 1" by simp
  then obtain x where "iterate order {m} = [x]"
    by (cases "iterate order {m}") auto
  with s show ?thesis by simp
qed

lemma collect_loop_union:
  assumes "\<And>move. move \<in> set moves \<Longrightarrow> call move = Inr (F move)"
  shows "collect_loop call moves out
       = Inr (out \<union> (\<Union>move\<in>set moves. Set.filter (\<lambda>solution. length solution > 0) (F move)))"
  using assms by (induction moves arbitrary: out) auto

lemma recursive_completions:
  assumes "valid_partial n p" "length p < n"
  shows "recursive order p n = Inr (completions n p)"
  using assms
proof (induction order p n rule: recursive.induct)
  case (1 order p n)
  let ?vm = "get_valid_moves p n"
  have fin: "finite ?vm" by (rule finite_get_valid_moves)
  show ?case
  proof (cases "card ?vm = 0")
    case True
    then have "?vm = {}" using fin by simp
    then have "completions n p = {}"
      using completions_step [OF "1.prems"(2)] by simp
    with True show ?thesis
      by (simp add: recursive.simps)
  next
    case nonempty: False
    show ?thesis
    proof (cases "int (length p) = int n - 1")
      case True
      then have len: "Suc (length p) = n" by linarith
      have "card ?vm = 1"
        using last_column_one_move [OF "1.prems"(1) len] nonempty by linarith
      then obtain m where vm: "?vm = {m}"
        by (auto simp: card_1_singleton_iff)
      have "valid_partial n (p @ [m])"
        using "1.prems"(1) vm by (simp add: valid_partial_snoc)
      then have "completions n (p @ [m]) = {p @ [m]}"
        using len by (intro completions_full) simp_all
      then have "completions n p = {p @ [m]}"
        using completions_step [OF "1.prems"(2)] vm by simp
      then show ?thesis
        using True vm by (simp add: recursive.simps iterate_singleton)
    next
      case False
      then have len: "Suc (length p) < n" using "1.prems"(2) by linarith
      have calls: "recursive order (p @ [move]) n = Inr (completions n (p @ [move]))"
        if "move \<in> set (iterate order ?vm)" for move
      proof -
        from that have "move \<in> ?vm" by (simp add: set_iterate fin)
        then have "valid_partial n (p @ [move])"
          using "1.prems"(1) by (simp add: valid_partial_snoc)
        then show ?thesis
          using "1.IH" [OF refl refl nonempty False that] len by simp
      qed
      have keep: "Set.filter (\<lambda>solution. length solution > 0) (completions n (p @ [move]))
          = completions n (p @ [move])" for move
        using len by (auto dest: completions_length)
      have "recursive order p n
          = collect_loop (\<lambda>move. recursive order (p @ [move]) n) (iterate order ?vm) {}"
        using nonempty False by (simp add: recursive.simps)
      also have "\<dots> = Inr ({} \<union> (\<Union>move\<in>set (iterate order ?vm).
            Set.filter (\<lambda>solution. length solution > 0) (completions n (p @ [move]))))"
        by (rule collect_loop_union) (rule calls)
      also have "\<dots> = Inr (completions n p)"
        unfolding keep set_iterate [OF fin] completions_step [OF "1.prems"(2)] by simp
      finally show ?thesis .
    qed
  qed
qed

section \<open>The permutation solver\<close>

lemma examined_Nil: "examined P [] = 0"
  by (simp add: examined_def)

lemma examined_Cons: "examined P (x # xs) = (if P x then 1 else Suc (examined P xs))"
  by (simp add: examined_def)

lemma examined_append:
  "examined P (xs @ ys) = (if list_ex P xs then examined P xs else length xs + examined P ys)"
  by (induction xs) (simp_all add: examined_Nil examined_Cons)

lemma examined_no_reject: "\<not> list_ex P xs \<Longrightarrow> examined P xs = length xs"
  by (induction xs) (simp_all add: examined_Nil examined_Cons)

lemma inner_loop_scan:
  "inner_loop permut i (permut ! i) js counter
     = (list_ex (diagonal_conflict permut) (map (Pair i) js),
        counter + examined (diagonal_conflict permut) (map (Pair i) js))"
  by (induction js arbitrary: counter)
     (simp_all add: examined_Nil examined_Cons diagonal_conflict_def)

lemma outer_loop_scan:
  "outer_loop permut (map (\<lambda>i. (i, permut ! i)) idxs) counter
     = (list_ex (diagonal_conflict permut) (pairs_from (length permut) idxs),
        counter + examined (diagonal_conflict permut) (pairs_from (length permut) idxs))"
proof (induction idxs arbitrary: counter)
  case Nil
  then show ?case by (simp add: pairs_from_def examined_Nil)
next
  case (Cons i idxs)
  have pf: "pairs_from (length permut) (i # idxs)
      = map (Pair i) [i + 1..<length permut] @ pairs_from (length permut) idxs"
    by (simp add: pairs_from_def)
  show ?case
    unfolding pf examined_append
    by (simp add: inner_loop_scan Cons.IH examined_no_reject)
qed

lemma enumerate_butlast:
  "enumerate 0 (butlast permut) = map (\<lambda>i. (i, permut ! i)) [0..<length permut - 1]"
  by (rule nth_equalityI) (simp_all add: nth_enumerate_eq nth_butlast)

lemma pairs_from_butlast: "pairs_from len [0..<len - 1] = index_pairs len"
proof (cases len)
  case 0
  then show ?thesis by (simp add: index_pairs_def)
next
  case (Suc k)
  then show ?thesis by (simp add: index_pairs_def pairs_from_def)
qed

lemma outer_loop_permut:
  "outer_loop permut (enumerate 0 (butlast permut)) counter
     = (list_ex (diagonal_conflict permut) (index_pairs (length permut)),
        counter + pairs_examined permut)"
  unfolding enumerate_butlast outer_loop_scan pairs_from_butlast pairs_examined_def ..

lemma set_index_pairs: "set (index_pairs len) = {(i, j). i < j \<and> j < len}"
proof -
  have "(a, b) \<in> set (index_pairs len) \<longleftrightarrow> a < b \<and> b < len" for a b
  proof
    assume "(a, b) \<in> set (index_pairs len)"
    then show "a < b \<and> b < len"
      by (auto simp: index_pairs_def pairs_from_def)
  next
    assume ab: "a < b \<and> b < len"
    then have "a \<in> set [0..<len]" "(a, b) \<in> set (map (Pair a) [a + 1..<len])"
      by auto
    then have "(a, b) \<in> (\<Union>i\<in>set [0..<len]. set (map (Pair i) [i + 1..<len]))"
      by (rule UN_I)
    then show "(a, b) \<in> set (index_pairs len)"
      unfolding index_pairs_def pairs_from_def set_concat set_map image_image .
  qed
  then show ?thesis by auto
qed

lemma conflict_iff_unsafe:
  "list_ex (diagonal_conflict permut) (index_pairs (length permut)) \<longleftrightarrow> \<not> diagonal_safe permut"
  by (auto simp: list_ex_iff set_index_pairs diagonal_conflict_def diagonal_safe_def)

lemma brute_force_fold:
  "fold (\<lambda>permut (solutions, counter).
            case outer_loop permut (enumerate 0 (butlast permut)) counter of
              (not_valid, counter) \<Rightarrow>
                (if not_valid = False then insert permut solutions else solutions, counter))
        permuts (solutions, counter)
   = (solutions \<union> {permut \<in> set permuts. diagonal_safe permut},
      counter + sum_list (map pairs_examined permuts))"
  by (induction permuts arbitrary: solutions counter)
     (auto simp: outer_loop_permut conflict_iff_unsafe)

lemma set_remove_nth:
  assumes "distinct pool" "i < length pool"
  shows "set (take i pool @ drop (Suc i) pool) = set pool - {pool ! i}"
proof -
  have "pool = take i pool @ pool ! i # drop (Suc i) pool"
    using assms(2) by (simp add: id_take_nth_drop)
  then have "distinct (take i pool @ pool ! i # drop (Suc i) pool)"
    and "set pool = set (take i pool @ pool ! i # drop (Suc i) pool)"
    using assms(1) by simp_all
  then show ?thesis by auto
qed

lemma distinct_remove_nth:
  assumes "distinct pool"
  shows "distinct (take i pool @ drop (Suc i) pool)"
proof -
  have "set (take i pool) \<inter> set (drop (Suc i) pool) = {}"
    using assms by (intro set_take_disj_set_drop_if_distinct) simp_all
  with assms show ?thesis by simp
qed

lemma set_permutations:
  assumes "distinct pool"
  shows "set (permutations pool r) = {p. length p = r \<and> distinct p \<and> set p \<subseteq> set pool}"
  using assms
proof (induction r arbitrary: pool)
  case 0
  then show ?case by auto
next
  case (Suc r)
  have rest: "set (permutations (take i pool @ drop (Suc i) pool) r)
      = {p. length p = r \<and> distinct p \<and> set p \<subseteq> set pool - {pool ! i}}"
    if "i < length pool" for i
    using Suc.IH [OF distinct_remove_nth [OF Suc.prems]] set_remove_nth [OF Suc.prems that]
    by simp
  show ?case
  proof (intro set_eqI iffI)
    fix p assume "p \<in> set (permutations pool (Suc r))"
    then obtain i q where i: "i < length pool" and p: "p = pool ! i # q"
      and q: "q \<in> set (permutations (take i pool @ drop (Suc i) pool) r)"
      by auto
    from q rest [OF i] have "length q = r" "distinct q" "set q \<subseteq> set pool - {pool ! i}"
      by simp_all
    with i p show "p \<in> {p. length p = Suc r \<and> distinct p \<and> set p \<subseteq> set pool}"
      by auto
  next
    fix p assume "p \<in> {p. length p = Suc r \<and> distinct p \<and> set p \<subseteq> set pool}"
    then obtain x q where p: "p = x # q" and len: "length q = r" and d: "distinct q" "x \<notin> set q"
      and sub: "set q \<subseteq> set pool" "x \<in> set pool"
      by (cases p) auto
    from sub(2) obtain i where i: "i < length pool" "pool ! i = x"
      by (auto simp: in_set_conv_nth)
    have "q \<in> set (permutations (take i pool @ drop (Suc i) pool) r)"
      unfolding rest [OF i(1)] using len d sub i by auto
    with i p show "p \<in> set (permutations pool (Suc r))"
      by auto
  qed
qed

lemma distinct_concat_map:
  assumes "distinct idxs" "\<And>i. i \<in> set idxs \<Longrightarrow> distinct (f i)"
    "\<And>i j. i \<in> set idxs \<Longrightarrow> j \<in> set idxs \<Longrightarrow> i \<noteq> j \<Longrightarrow> set (f i) \<inter> set (f j) = {}"
  shows "distinct (concat (map f idxs))"
  using assms by (induction idxs) auto

lemma distinct_permutations:
  assumes "distinct pool"
  shows "distinct (permutations pool r)"
  using assms
proof (induction r arbitrary: pool)
  case 0
  then show ?case by simp
next
  case (Suc r)
  show ?case
    unfolding permutations.simps
  proof (rule distinct_concat_map)
    show "distinct [0..<length pool]" by simp
  next
    fix i assume "i \<in> set [0..<length pool]"
    show "distinct (map ((#) (pool ! i)) (permutations (take i pool @ drop (Suc i) pool) r))"
      using Suc.IH [OF distinct_remove_nth [OF Suc.prems]] by (simp add: distinct_map)
  next
    fix i j assume "i \<in> set [0..<length pool]" "j \<in> set [0..<length pool]" "i \<noteq> j"
    then have "pool ! i \<noteq> pool ! j"
      using Suc.prems by (simp add: nth_eq_iff_index_eq)
    then show "set (map ((#) (pool ! i)) (permutations (take i pool @ drop (Suc i) pool) r))
        \<inter> set (map ((#) (pool ! j)) (permutations (take j pool @ drop (Suc j) pool) r)) = {}"
      by auto
  qed
qed

lemma range_perms:
  "set (permutations (map int [0..<n]) n)
     = {p. length p = n \<and> distinct p \<and> set p \<subseteq> int ` {0..<n}}"
  by (simp add: set_permutations distinct_map)

lemma brute_force_solutions: "fst (brute_force n) = {s. is_solution n s}"
  unfolding brute_force_def Let_def brute_force_fold
  by (auto simp: range_perms is_solution_def valid_partial_def)

lemma brute_force_counter:
  "snd (brute_force n) = sum_list (map pairs_examined (permutations (map int [0..<n]) n))"
  unfolding brute_force_def Let_def brute_force_fold by simp

lemma completions_Nil: "completions n [] = {s. is_solution n s}"
  by (simp add: completions_def)

section \<open>The first-solution solver and the self-test\<close>

lemma first_loop_agrees:
  assumes "\<And>move. move \<in> set moves \<Longrightarrow> agrees (call move) (F move)"
  shows "agrees (first_loop call moves) (\<Union>move\<in>set moves. F move)"
  using assms
proof (induction moves)
  case Nil
  then show ?case by (simp add: agrees_def)
next
  case (Cons m moves)
  have hd: "agrees (call m) (F m)" and tl: "agrees (first_loop call moves) (\<Union>move\<in>set moves. F move)"
    using Cons by simp_all
  show ?case
  proof (cases "call m")
    case (Inl e)
    with hd show ?thesis by (simp add: agrees_def)
  next
    case (Inr r)
    show ?thesis
    proof (cases r)
      case None
      with Inr hd have "F m = {}" by (simp add: agrees_def)
      with Inr None tl show ?thesis by simp
    next
      case (Some s)
      with Inr hd have "s \<in> F m" by (simp add: agrees_def)
      with Inr Some show ?thesis by (simp add: agrees_def)
    qed
  qed
qed

lemma recursive_fast_agrees:
  assumes "valid_partial n p" "length p < n"
  shows "agrees (recursive_fast order p n) (completions n p)"
  using assms
proof (induction order p n rule: recursive_fast.induct)
  case (1 order p n)
  let ?vm = "get_valid_moves p n"
  have fin: "finite ?vm" by (rule finite_get_valid_moves)
  show ?case
  proof (cases "card ?vm = 0")
    case True
    then have "?vm = {}" using fin by simp
    then have "completions n p = {}"
      using completions_step [OF "1.prems"(2)] by simp
    with True show ?thesis
      by (simp add: recursive_fast.simps agrees_def)
  next
    case nonempty: False
    show ?thesis
    proof (cases "int (length p) = int n - 1")
      case True
      then have len: "Suc (length p) = n" by linarith
      have "card ?vm = 1"
        using last_column_one_move [OF "1.prems"(1) len] nonempty by linarith
      then obtain m where vm: "?vm = {m}"
        by (auto simp: card_1_singleton_iff)
      have "valid_partial n (p @ [m])"
        using "1.prems"(1) vm by (simp add: valid_partial_snoc)
      then have "completions n (p @ [m]) = {p @ [m]}"
        using len by (intro completions_full) simp_all
      then have "completions n p = {p @ [m]}"
        using completions_step [OF "1.prems"(2)] vm by simp
      then show ?thesis
        using True vm by (simp add: recursive_fast.simps iterate_singleton agrees_def)
    next
      case False
      then have len: "Suc (length p) < n" using "1.prems"(2) by linarith
      have calls: "agrees (recursive_fast order (p @ [move]) n) (completions n (p @ [move]))"
        if "move \<in> set (iterate order ?vm)" for move
      proof -
        from that have "move \<in> ?vm" by (simp add: set_iterate fin)
        then have "valid_partial n (p @ [move])"
          using "1.prems"(1) by (simp add: valid_partial_snoc)
        then show ?thesis
          using "1.IH" [OF refl refl nonempty False that] len by simp
      qed
      have "recursive_fast order p n
          = first_loop (\<lambda>move. recursive_fast order (p @ [move]) n) (iterate order ?vm)"
        using nonempty False by (simp add: recursive_fast.simps)
      moreover have "agrees (first_loop (\<lambda>move. recursive_fast order (p @ [move]) n) (iterate order ?vm))
          (\<Union>move\<in>set (iterate order ?vm). completions n (p @ [move]))"
        by (rule first_loop_agrees) (rule calls)
      ultimately show ?thesis
        unfolding set_iterate [OF fin] completions_step [OF "1.prems"(2)] by simp
    qed
  qed
qed

lemma reached_valid:
  "reached n p \<Longrightarrow> valid_partial n p \<and> (p = [] \<or> length p < n)"
proof (induction rule: reached.induct)
  case start
  then show ?case by (simp add: valid_partial_Nil)
next
  case (call curr_state move)
  from call.hyps(4) have "0 < n"
    using get_valid_moves_fresh by fastforce
  with call.IH have "length curr_state < n"
    by (cases "curr_state = []") auto
  with call.hyps(3) have "Suc (length curr_state) < n"
    by linarith
  with call.IH call.hyps(4) show ?case
    by (simp add: valid_partial_snoc)
qed

lemma empty_board_moves: "get_valid_moves [] n = int ` {0..<n}"
  by (simp add: get_valid_moves_def)

lemma recursive_zero: "recursive order [] 0 = Inr {}"
  by (simp add: recursive.simps empty_board_moves)

lemma recursive_fast_zero: "recursive_fast order [] 0 = Inr None"
  by (simp add: recursive_fast.simps empty_board_moves)

lemma oracle_accepts:
  assumes "is_solution n s" "r < n"
  shows "s ! r \<in> get_valid_moves (take r s) n"
proof -
  from assms have "r < length s" by (simp add: is_solution_def)
  then have "take (Suc r) s = take r s @ [s ! r]"
    by (simp add: take_Suc_conv_app_nth)
  moreover have "valid_partial n (take (Suc r) s)"
    using assms(1) by (simp add: is_solution_def valid_partial_take)
  ultimately show ?thesis
    by (simp add: valid_partial_snoc)
qed







lemma moves_loop_pass:
  assumes "\<And>row move. (row, move) \<in> set pairs \<Longrightarrow> move \<in> get_valid_moves (take row solution) n"
  shows "moves_loop n solution pairs failed = Inr failed"
  using assms by (induction pairs) (auto simp: Let_def)

lemma solutions_loop_pass:
  assumes "\<And>solution. solution \<in> set sols \<Longrightarrow> is_solution n solution"
  shows "solutions_loop n sols failed = Inr failed"
  using assms
proof (induction sols)
  case Nil
  then show ?case by simp
next
  case (Cons solution sols)
  have sol: "is_solution n solution" using Cons.prems by simp
  have "moves_loop n solution (enumerate 0 solution) failed = Inr failed"
  proof (rule moves_loop_pass)
    fix row move assume "(row, move) \<in> set (enumerate 0 solution)"
    then have "row < length solution" "move = solution ! row"
      by (auto simp: in_set_enumerate_eq)
    with sol show "move \<in> get_valid_moves (take row solution) n"
      by (simp add: oracle_accepts is_solution_def)
  qed
  with Cons show ?case by simp
qed

lemma finite_solutions: "finite (fst (brute_force n))"
  unfolding brute_force_def Let_def brute_force_fold by simp

section \<open>Concrete runs\<close>

lemma brute_force_4: "brute_force 4 = ({[1, 3, 0, 2], [2, 0, 3, 1]}, 62)"
  by code_simp

lemma brute_force_2: "brute_force 2 = ({}, 2)"
  by code_simp

lemma brute_force_0: "brute_force 0 = ({[]}, 0)"
  by code_simp



lemma recursive_solutions:
  assumes "1 \<le> n"
  shows "recursive order [] n = Inr {s. is_solution n s}"
  using recursive_completions [of n "[]" order] assms
  by (simp add: valid_partial_Nil completions_Nil)

lemma recursive_fast_solutions:
  assumes "1 \<le> n"
  shows "agrees (recursive_fast order [] n) {s. is_solution n s}"
  using recursive_fast_agrees [of n "[]" order] assms
  by (simp add: valid_partial_Nil completions_Nil)

lemma permutation_sets:
  "{p. length p = n \<and> distinct p \<and> set p \<subseteq> int ` {0..<n}}
     = {p. length p = n \<and> distinct p \<and> set p = int ` {0..<n}}"
proof -
  have "set p = int ` {0..<n}"
    if "length p = n" "distinct p" "set p \<subseteq> int ` {0..<n}" for p :: "int list"
  proof (rule card_subset_eq [OF _ that(3)])
    show "finite (int ` {0..<n})" by simp
    show "card (set p) = card (int ` {0..<n})"
      using that(1,2) by (simp add: distinct_card card_image)
  qed
  then show ?thesis by auto
qed

section \<open>The claims\<close>

subsection \<open>C1\<close>

text \<open>
  C1. For every board size \<open>n \<ge> 1\<close> and every iteration order of the sets,
  \<^verbatim>\<open>recursive([], n)\<close> returns exactly the solution set of \<^verbatim>\<open>brute_force(n)\<close>, which is
  the set of all valid placements of size \<open>n\<close>; for \<open>n = 4\<close> it returns
  \<open>{(1,3,0,2), (2,0,3,1)}\<close>.
\<close>

theorem recursive_equals_brute_force:
  "(1 \<le> n \<longrightarrow> recursive order [] n = Inr (fst (brute_force n))
       \<and> fst (brute_force n) = {s. is_solution n s})
   \<and> recursive order [] 4 = Inr {[1, 3, 0, 2], [2, 0, 3, 1]}"
proof -
  have "recursive order [] 4 = Inr (fst (brute_force 4))"
    using recursive_solutions [of 4 order] by (simp add: brute_force_solutions)
  then show ?thesis
    by (simp add: recursive_solutions brute_force_solutions brute_force_4)
qed

text \<open>
  C1 at a concrete input.
\<close>

theorem recursive_equals_brute_force_witness:
  "(1::nat) \<le> 4 \<and> recursive descending [] 4 = Inr (fst (brute_force 4))
   \<and> recursive descending [] 4 = Inr {[1, 3, 0, 2], [2, 0, 3, 1]}"
proof -
  have "(1::nat) \<le> 4" by simp
  with recursive_equals_brute_force [of 4 descending] show ?thesis by blast
qed

subsection \<open>C2\<close>

text \<open>
  C2. For every board size \<open>n \<ge> 1\<close>, every solution \<open>S\<close> returned by
  \<^verbatim>\<open>brute_force(n)\<close> and every index \<open>r < n\<close>, the row \<open>S[r]\<close> is a member of
  \<^verbatim>\<open>get_valid_moves(S[:r], n)\<close>.
\<close>

theorem oracle_accepts_solution_moves:
  assumes "1 \<le> n" "S \<in> fst (brute_force n)" "r < n"
  shows "S ! r \<in> get_valid_moves (take r S) n"
  using assms by (simp add: brute_force_solutions oracle_accepts)

text \<open>
  C2 at a concrete input.
\<close>

theorem oracle_accepts_solution_moves_witness:
  "[1, 3, 0, 2] \<in> fst (brute_force 4) \<and> [1, 3, 0, 2] ! 2 \<in> get_valid_moves (take 2 [1, 3, 0, 2]) 4"
proof -
  have m: "[1, 3, 0, 2] \<in> fst (brute_force 4)"
    by (simp add: brute_force_4)
  show ?thesis
    using oracle_accepts_solution_moves [of 4 "[1, 3, 0, 2]" 2] m by simp
qed

subsection \<open>C3\<close>

text \<open>
  C3. For every board size \<open>n \<ge> 1\<close>, \<^verbatim>\<open>recursive([], n)\<close> returns a set, and every
  placement in it has length \<open>n\<close>, distinct values in \<open>[0, n)\<close>, and
  \<open>|placement[i] - placement[j]| \<noteq> j - i\<close> for all \<open>i < j\<close>.
\<close>

theorem recursive_placements_valid:
  assumes "1 \<le> n"
  shows "\<exists>S. recursive order [] n = Inr S \<and>
    (\<forall>placement\<in>S. length placement = n \<and> distinct placement \<and>
       (\<forall>x\<in>set placement. 0 \<le> x \<and> x < int n) \<and>
       (\<forall>i j. i < j \<and> j < n \<longrightarrow> \<bar>placement ! i - placement ! j\<bar> \<noteq> int j - int i))"
proof -
  have "length s = n \<and> distinct s \<and> (\<forall>x\<in>set s. 0 \<le> x \<and> x < int n) \<and>
       (\<forall>i j. i < j \<and> j < n \<longrightarrow> \<bar>s ! i - s ! j\<bar> \<noteq> int j - int i)"
    if "is_solution n s" for s
    using that by (auto simp: is_solution_def valid_partial_def diagonal_safe_def)
  then show ?thesis
    using recursive_solutions [OF assms, of order] by simp
qed

text \<open>
  C3 at a concrete input.
\<close>

theorem recursive_placements_valid_witness:
  "recursive ascending [] 4 = Inr {[1, 3, 0, 2], [2, 0, 3, 1]} \<and>
   distinct [1 :: int, 3, 0, 2] \<and> \<bar>[1 :: int, 3, 0, 2] ! 0 - [1, 3, 0, 2] ! 1\<bar> \<noteq> int 1 - int 0"
proof -
  have r: "recursive ascending [] 4 = Inr {[1, 3, 0, 2], [2, 0, 3, 1]}"
    using recursive_solutions [of 4 ascending] by (simp flip: brute_force_solutions add: brute_force_4)
  obtain S where S: "recursive ascending [] 4 = Inr S"
    and v: "\<forall>placement\<in>S. length placement = 4 \<and> distinct placement \<and>
       (\<forall>x\<in>set placement. 0 \<le> x \<and> x < int 4) \<and>
       (\<forall>i j. i < j \<and> j < 4 \<longrightarrow> \<bar>placement ! i - placement ! j\<bar> \<noteq> int j - int i)"
    using recursive_placements_valid [of 4 ascending] by auto
  from r S have m: "[1, 3, 0, 2] \<in> S" by simp
  from v m have d: "distinct [1 :: int, 3, 0, 2]" by blast
  from v m have "\<forall>i j. i < j \<and> j < 4 \<longrightarrow>
      \<bar>[1 :: int, 3, 0, 2] ! i - [1, 3, 0, 2] ! j\<bar> \<noteq> int j - int i"
    by blast
  then have "(0::nat) < 1 \<and> (1::nat) < 4 \<longrightarrow>
      \<bar>[1 :: int, 3, 0, 2] ! 0 - [1, 3, 0, 2] ! 1\<bar> \<noteq> int 1 - int 0"
    by blast
  then have "\<bar>[1 :: int, 3, 0, 2] ! 0 - [1, 3, 0, 2] ! 1\<bar> \<noteq> int 1 - int 0"
    by simp
  with r d show ?thesis by blast
qed

subsection \<open>C4\<close>

text \<open>
  C4. \<^verbatim>\<open>get_valid_moves(P, n)\<close> is \<open>{0, ..., n-1}\<close> minus the union, over every placed
  queen at index \<open>idx\<close> with row \<open>move\<close>, of
  \<open>{move, move + (k - idx), move - (k - idx)}\<close>, where \<open>k\<close> is the length of \<open>P\<close>; on the
  empty placement it is \<open>{0, ..., n-1}\<close>. This holds for every \<open>P\<close> and \<open>n\<close>.
\<close>

theorem get_valid_moves_spec:
  "get_valid_moves P n =
     int ` {0..<n} -
       (\<Union>idx<length P. {P ! idx, P ! idx + (int (length P) - int idx),
                          P ! idx - (int (length P) - int idx)})
   \<and> get_valid_moves [] n = int ` {0..<n}"
  by (auto simp: get_valid_moves_iff)

text \<open>
  C4 at a concrete input.
\<close>

theorem get_valid_moves_spec_witness:
  "get_valid_moves [0] 4 = {2, 3} \<and> get_valid_moves [] 4 = {0, 1, 2, 3}"
proof -
  have a: "int ` {0..<4} -
       (\<Union>idx<length [0 :: int]. {[0] ! idx, [0] ! idx + (int (length [0 :: int]) - int idx),
                          [0] ! idx - (int (length [0 :: int]) - int idx)}) = {2, 3}"
    by code_simp
  have b: "int ` {0..<4} = {0, 1, 2, 3}"
    by code_simp
  from get_valid_moves_spec [of "[0]" 4] have "get_valid_moves [0] 4 = {2, 3}"
    unfolding a by blast
  moreover from get_valid_moves_spec [of "[]" 4] have "get_valid_moves [] 4 = {0, 1, 2, 3}"
    unfolding b by blast
  ultimately show ?thesis by blast
qed

subsection \<open>C5\<close>

text \<open>
  C5. In every call reached from \<^verbatim>\<open>recursive([], n)\<close> or \<^verbatim>\<open>recursive_fast([], n)\<close>, if
  the placement has length \<open>n - 1\<close> and its set of valid moves is not empty, the set has
  exactly one element; every reached call, and the call on the empty placement, returns
  without an exception, so the assertion never fails. This holds for every board size and
  every iteration order.
\<close>

theorem assertion_never_fails:
  "(reached n p \<longrightarrow>
      (int (length p) = int n - 1 \<and> card (get_valid_moves p n) \<noteq> 0
         \<longrightarrow> card (get_valid_moves p n) = 1)
      \<and> (\<exists>S. recursive order p n = Inr S) \<and> (\<exists>r. recursive_fast order' p n = Inr r))
   \<and> (\<exists>S. recursive order [] n = Inr S) \<and> (\<exists>r. recursive_fast order' [] n = Inr r)"
proof -
  have ret: "(\<exists>S. recursive order q n = Inr S) \<and> (\<exists>r. recursive_fast order' q n = Inr r)"
    if "reached n q" for q
  proof (cases "length q < n")
    case True
    from reached_valid [OF that] have vp: "valid_partial n q" by simp
    have "agrees (recursive_fast order' q n) (completions n q)"
      using vp True by (rule recursive_fast_agrees)
    then have "\<exists>r. recursive_fast order' q n = Inr r"
      by (cases "recursive_fast order' q n") (simp_all add: agrees_def)
    then show ?thesis
      using recursive_completions [OF vp True, of order] by simp
  next
    case False
    with reached_valid [OF that] have "q = []" "n = 0" by auto
    then show ?thesis
      by (simp add: recursive_zero recursive_fast_zero)
  qed
  have one: "card (get_valid_moves p n) = 1"
    if "reached n p" "int (length p) = int n - 1" "card (get_valid_moves p n) \<noteq> 0"
  proof -
    from that(2) have len: "Suc (length p) = n" by linarith
    from reached_valid [OF that(1)] have "valid_partial n p" by simp
    from last_column_one_move [OF this len] that(3) show ?thesis by linarith
  qed
  show ?thesis
    using ret [of p] ret [OF reached.start] one by blast
qed

text \<open>
  C5 at a concrete input.
\<close>

theorem assertion_never_fails_witness:
  "reached 4 [1, 3, 0] \<and> int (length [1 :: int, 3, 0]) = int 4 - 1 \<and>
   card (get_valid_moves [1, 3, 0] 4) = 1 \<and>
   (\<exists>S. recursive ascending [] 4 = Inr S) \<and> (\<exists>r. recursive_fast descending [] 4 = Inr r)"
proof -
  have r1: "reached 4 ([] @ [1])"
    by (rule reached.call [OF reached.start]; code_simp)
  have r2: "reached 4 (([] @ [1]) @ [3])"
    by (rule reached.call [OF r1]; code_simp)
  have r3: "reached 4 ((([] @ [1]) @ [3]) @ [0])"
    by (rule reached.call [OF r2]; code_simp)
  then have r: "reached 4 [1, 3, 0]" by simp
  have l: "int (length [1 :: int, 3, 0]) = int 4 - 1" by simp
  have c: "card (get_valid_moves [1, 3, 0] 4) \<noteq> 0" by code_simp
  show ?thesis
    using assertion_never_fails [of 4 "[1, 3, 0]" ascending descending] r l c by blast
qed

subsection \<open>C6\<close>

text \<open>
  C6. For every board size \<open>n \<ge> 1\<close> and all iteration orders,
  \<^verbatim>\<open>recursive_fast([], n)\<close> is \<^verbatim>\<open>None\<close> if and only if \<^verbatim>\<open>recursive([], n)\<close> is the
  empty set, which holds if and only if the solution set of \<^verbatim>\<open>brute_force(n)\<close> is empty;
  and a result of \<^verbatim>\<open>recursive_fast([], n)\<close> other than \<^verbatim>\<open>None\<close> is a member of the set
  that \<^verbatim>\<open>recursive([], n)\<close> returns.
\<close>

theorem solvers_cross_consistent:
  assumes "1 \<le> n"
  shows "(recursive_fast order [] n = Inr None \<longleftrightarrow> recursive order' [] n = Inr {})
    \<and> (recursive order' [] n = Inr {} \<longleftrightarrow> fst (brute_force n) = {})
    \<and> (recursive_fast order [] n \<noteq> Inr None \<longrightarrow>
         (\<exists>s S. recursive_fast order [] n = Inr (Some s) \<and> recursive order' [] n = Inr S \<and> s \<in> S))"
proof -
  have r: "recursive order' [] n = Inr (fst (brute_force n))"
    using recursive_solutions [OF assms] by (simp add: brute_force_solutions)
  have a: "agrees (recursive_fast order [] n) (fst (brute_force n))"
    using recursive_fast_solutions [OF assms] by (simp add: brute_force_solutions)
  have b: "recursive order' [] n = Inr {} \<longleftrightarrow> fst (brute_force n) = {}"
    unfolding r by simp
  show ?thesis
  proof (cases "recursive_fast order [] n")
    case (Inl e)
    with a show ?thesis by (simp add: agrees_def)
  next
    case (Inr res)
    show ?thesis
    proof (cases res)
      case None
      with Inr a have "fst (brute_force n) = {}" by (simp add: agrees_def)
      with Inr None b show ?thesis by simp
    next
      case (Some s)
      with Inr a have s: "s \<in> fst (brute_force n)" by (simp add: agrees_def)
      then have "fst (brute_force n) \<noteq> {}" by blast
      moreover have "\<exists>s S. recursive_fast order [] n = Inr (Some s) \<and> recursive order' [] n = Inr S \<and> s \<in> S"
        using Inr Some r s by blast
      ultimately show ?thesis
        using Inr Some b by simp
    qed
  qed
qed

text \<open>
  C6 at a concrete input.
\<close>

theorem solvers_cross_consistent_witness:
  "(1::nat) \<le> 2 \<and> fst (brute_force 2) = {} \<and> recursive ascending [] 2 = Inr {} \<and>
   recursive_fast descending [] 2 = Inr None"
proof -
  have h: "(1::nat) \<le> 2" by simp
  have b: "fst (brute_force 2) = {}" by (simp add: brute_force_2)
  from solvers_cross_consistent [OF h, of descending ascending]
  have "recursive_fast descending [] 2 = Inr None \<longleftrightarrow> recursive ascending [] 2 = Inr {}"
    and "recursive ascending [] 2 = Inr {} \<longleftrightarrow> fst (brute_force 2) = {}"
    by blast+
  with h b show ?thesis by simp
qed

subsection \<open>C7\<close>




subsection \<open>C8\<close>

text \<open>
  C8. For every \<open>n\<close>, the counter returned by \<^verbatim>\<open>brute_force(n)\<close> is the sum, over all
  permutations of \<^verbatim>\<open>range(n)\<close>, of the number of index pairs examined in the
  permutation: the pairs are scanned with \<open>i\<close> ascending and, for one \<open>i\<close>, \<open>j\<close>
  ascending, up to and including the first pair with \<open>|permut[i] - permut[j]| = j - i\<close>.
\<close>

theorem brute_force_counter_spec:
  "snd (brute_force n) =
     (\<Sum>permut\<in>{p. length p = n \<and> distinct p \<and> set p = int ` {0..<n}}. pairs_examined permut)"
proof -
  have "snd (brute_force n) = sum pairs_examined (set (permutations (map int [0..<n]) n))"
    unfolding brute_force_counter
    by (rule sum_list_distinct_conv_sum_set) (simp add: distinct_permutations distinct_map)
  then show ?thesis
    by (simp add: range_perms permutation_sets)
qed

text \<open>
  C8 at a concrete input.
\<close>

theorem brute_force_counter_spec_witness:
  "(\<Sum>permut\<in>{p. length p = 4 \<and> distinct p \<and> set p = int ` {0..<4}}. pairs_examined permut) = 62"
  using brute_force_counter_spec [of 4] by (simp add: brute_force_4)

subsection \<open>C9\<close>

text \<open>
  C9. For every board size and every iteration order of the solution set,
  \<^verbatim>\<open>test_get_valid_moves(n)\<close> runs to completion and reports a pass: no solution of
  \<^verbatim>\<open>brute_force(n)\<close> has a move that the oracle rejects for the corresponding prefix, so
  the branch that records a failure is never entered.
\<close>

theorem self_test_passes:
  "test_get_valid_moves order n = Inr Test_passed \<and>
   (\<forall>solution\<in>fst (brute_force n). \<forall>row<length solution.
       solution ! row \<in> get_valid_moves (take row solution) n)"
proof -
  have visited: "set (iterate order (fst (brute_force n))) = fst (brute_force n)"
    by (rule set_iterate [OF finite_solutions])
  have "solutions_loop n (iterate order (fst (brute_force n))) {} = Inr {}"
  proof (rule solutions_loop_pass)
    fix solution assume "solution \<in> set (iterate order (fst (brute_force n)))"
    then show "is_solution n solution"
      unfolding visited by (simp add: brute_force_solutions)
  qed
  then have "test_get_valid_moves order n = Inr Test_passed"
    by (simp add: test_get_valid_moves_def)
  moreover have "solution ! row \<in> get_valid_moves (take row solution) n"
    if "solution \<in> fst (brute_force n)" "row < length solution" for solution row
    using that by (simp add: brute_force_solutions oracle_accepts is_solution_def)
  ultimately show ?thesis by blast
qed

text \<open>
  C9 at a concrete input.
\<close>

theorem self_test_passes_witness:
  "test_get_valid_moves ascending 4 = Inr Test_passed \<and>
   [2, 0, 3, 1] ! 3 \<in> get_valid_moves (take 3 [2, 0, 3, 1]) 4"
proof -
  have "[2, 0, 3, 1] \<in> fst (brute_force 4)" "(3::nat) < length [2 :: int, 0, 3, 1]"
    by (simp_all add: brute_force_4)
  with self_test_passes [of ascending 4] show ?thesis by blast
qed

subsection \<open>C10\<close>

text \<open>
  C10. For board size \<open>0\<close>, \<^verbatim>\<open>brute_force(0)\<close> returns the solution set \<open>{()}\<close> with
  counter \<open>0\<close>, \<^verbatim>\<open>recursive([], 0)\<close> returns the empty set and
  \<^verbatim>\<open>recursive_fast([], 0)\<close> returns \<^verbatim>\<open>None\<close>: the three solvers disagree.
\<close>

theorem solvers_disagree_at_zero:
  "brute_force 0 = ({[]}, 0) \<and> recursive order [] 0 = Inr {} \<and>
   recursive_fast order' [] 0 = Inr None \<and> fst (brute_force 0) \<noteq> {}"
  by (simp add: brute_force_0 recursive_zero recursive_fast_zero)

text \<open>
  C10 at a concrete input.
\<close>

theorem solvers_disagree_at_zero_witness:
  "brute_force 0 = ({[]}, 0) \<and> recursive ascending [] 0 = Inr {} \<and>
   recursive_fast ascending [] 0 = Inr None"
  using solvers_disagree_at_zero [of ascending ascending] by simp

end
